theory Spec2Isabelle
  imports Main "HOL-Library.Multiset"
begin

section \<open>The notebook asyncTutorial.ipynb\<close>

text \<open>
  The notebook has two code cells that do work. The first squares every element of
  \<^verbatim>\<open>range(N)\<close> with a blocking delay of 0.2 seconds before each result; the second does
  the same through coroutines that are awaited in completion order. Both wrap the
  iteration in a progress bar.

  Python integers are unbounded, so they are \<^typ>\<open>int\<close>. Time is a logical clock in
  milliseconds that adds up the nominal delays only; the interpreter's own overhead is
  not part of the model.
\<close>

subsection \<open>Configuration and input range\<close>

text \<open>\<^verbatim>\<open>N = 50\<close>\<close>

definition N :: int where
  "N = 50"

text \<open>
  \<^verbatim>\<open>range(stop)\<close>: the integers \<open>0, 1, ..., stop - 1\<close> in ascending order, and no integer at
  all when \<open>stop \<le> 0\<close>.
\<close>

definition range_py :: "int \<Rightarrow> int list" where
  "range_py stop = [0..stop - 1]"

type_synonym clock = nat

text \<open>The delay \<^verbatim>\<open>0.2\<close> (seconds) of both cells, in milliseconds.\<close>

definition delay :: nat where
  "delay = 200"

subsection \<open>The workload functions\<close>

text \<open>
  \<^verbatim>\<open>def foo(a): time.sleep(0.2); return a**2\<close>

  The call blocks: it is entered at time \<open>t\<close> and hands back its value together with the
  time at which the caller goes on.
\<close>

definition foo :: "int \<Rightarrow> clock \<Rightarrow> int \<times> clock" where
  "foo a t = (a ^ 2, t + delay)"

text \<open>
  \<^verbatim>\<open>async def afoo(a): await asyncio.sleep(0.2); return a**2\<close>

  Calling \<^verbatim>\<open>afoo(a)\<close> runs nothing: it makes a coroutine object that holds the argument.
  Once the event loop has started the body at time \<open>t\<close>, the body is suspended until
  \<open>t + delay\<close> and then returns its value; \<open>afoo a t\<close> is that value with the wake-up
  time. The event loop stays free in between.
\<close>

datatype coroutine = Coroutine (arg: int)

definition afoo :: "int \<Rightarrow> clock \<Rightarrow> int \<times> clock" where
  "afoo a t = (a ^ 2, t + delay)"

fun launch :: "coroutine \<Rightarrow> clock \<Rightarrow> int \<times> clock" where
  "launch (Coroutine a) t = afoo a t"

subsection \<open>Progress bar and loop state\<close>

text \<open>
  Modelled from the spec: the progress bar \<^verbatim>\<open>tqdm\<close> is a library that is not part of the
  sources. The spec describes its state as a counter of completed units out of a fixed
  total, updated once per unit retirement, starting at zero. The state of a running cell
  is the list built so far, that counter, the total, and the clock.
\<close>

record run_state =
  results :: "int list"
  completed :: nat
  total :: int
  clock :: clock

definition tqdm :: "int \<Rightarrow> clock \<Rightarrow> run_state" where
  "tqdm tot t = \<lparr>results = [], completed = 0, total = tot, clock = t\<rparr>"

text \<open>
  The history of a loop: the state before the first item and after every item. The
  state a loop ends in is the last one of its history.
\<close>

fun history :: "('a \<Rightarrow> 's \<Rightarrow> 's) \<Rightarrow> 'a list \<Rightarrow> 's \<Rightarrow> 's list" where
  "history body [] s = [s]"
| "history body (a # as) s = s # history body as (body a s)"

subsection \<open>The sequential cell\<close>

text \<open>
  \<^verbatim>\<open>x = [foo(i) for i in tqdm(range(N))]\<close>

  One iteration takes the next input, calls \<open>foo\<close> (which blocks the whole cell), appends
  the value, and the bar counts the item. The bar of a range takes the length of the
  range as its total.
\<close>

definition seq_iter :: "int \<Rightarrow> run_state \<Rightarrow> run_state" where
  "seq_iter i s =
     (let (v, t') = foo i (clock s)
      in s\<lparr>results := results s @ [v], completed := completed s + 1, clock := t'\<rparr>)"

definition sequential :: "int \<Rightarrow> clock \<Rightarrow> run_state" where
  "sequential cnt t =
     fold seq_iter (range_py cnt) (tqdm (int (length (range_py cnt))) t)"

definition sequential_history :: "int \<Rightarrow> clock \<Rightarrow> run_state list" where
  "sequential_history cnt t =
     history seq_iter (range_py cnt) (tqdm (int (length (range_py cnt))) t)"

subsection \<open>The concurrent cell\<close>

text \<open>
  Modelled from the spec: \<^verbatim>\<open>asyncio.as_completed\<close> is a library function that is not part of
  the sources. The spec describes it as the iteration over the next completed unit: every
  pending unit is retired as its delay elapses, in completion order, which is
  scheduler-defined when the delays tie. A schedule names, for every retirement, the
  position of the unit that completes next among those still pending (taken modulo their
  number, so that every function is a schedule).
\<close>

type_synonym schedule = "nat \<Rightarrow> nat"

definition remove_nth :: "nat \<Rightarrow> 'a list \<Rightarrow> 'a list" where
  "remove_nth j xs = take j xs @ drop (Suc j) xs"

function as_completed :: "schedule \<Rightarrow> 'a list \<Rightarrow> 'a list" where
  "as_completed sched pending =
     (if pending = [] then []
      else let j = sched 0 mod length pending
           in pending ! j # as_completed (\<lambda>k. sched (Suc k)) (remove_nth j pending))"
  by pat_completeness auto
termination
proof (relation "measure (\<lambda>(sched, pending). length pending)", goal_cases)
  case 1
  show ?case by simp
next
  case (2 sched pending j)
  from 2(1) have "sched 0 mod length pending < length pending"
    by simp
  then have "length (remove_nth (sched 0 mod length pending) pending) < length pending"
    unfolding remove_nth_def by auto
  with 2(2) show ?case
    by simp
qed

text \<open>
  \<^verbatim>\<open>async def do1():\<close>
  \<^verbatim>\<open>    tasks = list(map(afoo, range(N)))\<close>
  \<^verbatim>\<open>    return [await t for t in tqdm(asyncio.as_completed(tasks), total=N)]\<close>

  All tasks are started when the cell is entered, at time \<open>t0\<close>. One iteration awaits the
  next completed task: the cell goes on no earlier than that task's wake-up time, appends
  the task's value, and the bar counts the item. The bar is given \<open>N\<close> as its total.
\<close>

definition conc_iter :: "clock \<Rightarrow> coroutine \<Rightarrow> run_state \<Rightarrow> run_state" where
  "conc_iter t0 c s =
     (let (v, w) = launch c t0
      in s\<lparr>results := results s @ [v], completed := completed s + 1,
            clock := max (clock s) w\<rparr>)"

definition do1 :: "schedule \<Rightarrow> int \<Rightarrow> clock \<Rightarrow> run_state" where
  "do1 sched cnt t0 =
     (let tasks = map Coroutine (range_py cnt)
      in fold (conc_iter t0) (as_completed sched tasks) (tqdm cnt t0))"

definition do1_history :: "schedule \<Rightarrow> int \<Rightarrow> clock \<Rightarrow> run_state list" where
  "do1_history sched cnt t0 =
     (let tasks = map Coroutine (range_py cnt)
      in history (conc_iter t0) (as_completed sched tasks) (tqdm cnt t0))"

text \<open>
  The two cells as the notebook runs them, at the configured \<open>N\<close>: the value bound to
  \<^verbatim>\<open>x\<close> by each.
\<close>

definition x_sequential :: "clock \<Rightarrow> int list" where
  "x_sequential t = results (sequential N t)"

definition x_concurrent :: "schedule \<Rightarrow> clock \<Rightarrow> int list" where
  "x_concurrent sched t = results (do1 sched N t)"

declare as_completed.simps [simp del]

section \<open>Properties\<close>

subsection \<open>The input range\<close>

lemma length_range_py: "length (range_py n) = nat n"
  by (simp add: range_py_def)

lemma nth_range_py: "k < nat n \<Longrightarrow> range_py n ! k = int k"
  by (simp add: range_py_def)

lemma range_py_eq_map: "range_py n = map int [0..<nat n]"
  by (rule nth_equalityI) (simp_all add: length_range_py nth_range_py)

lemma range_py_nonpos: "n \<le> 0 \<Longrightarrow> range_py n = []"
  by (simp add: range_py_def)

lemma range_py_eq_Nil: "range_py n = [] \<longleftrightarrow> n \<le> 0"
  by (simp add: range_py_def) arith

subsection \<open>Loops and their histories\<close>

lemma history_length: "length (history body xs s) = Suc (length xs)"
  by (induction xs arbitrary: s) simp_all

lemma history_last: "last (history body xs s) = fold body xs s"
proof (induction xs arbitrary: s)
  case Nil
  show ?case by simp
next
  case (Cons a xs)
  have "history body xs (body a s) \<noteq> []"
    by (cases xs) simp_all
  with Cons show ?case by simp
qed

lemma history_nth: "k \<le> length xs \<Longrightarrow> history body xs s ! k = fold body (take k xs) s"
proof (induction xs arbitrary: s k)
  case Nil
  then show ?case by simp
next
  case (Cons a xs)
  then show ?case by (cases k) simp_all
qed

lemma seq_iter_simps:
  "results (seq_iter i s) = results s @ [i ^ 2]"
  "completed (seq_iter i s) = Suc (completed s)"
  "total (seq_iter i s) = total s"
  "clock (seq_iter i s) = clock s + delay"
  by (simp_all add: seq_iter_def foo_def)

lemma conc_iter_simps:
  "results (conc_iter t0 (Coroutine a) s) = results s @ [a ^ 2]"
  "completed (conc_iter t0 c s) = Suc (completed s)"
  "total (conc_iter t0 c s) = total s"
  "clock (conc_iter t0 c s) = max (clock s) (t0 + delay)"
  by (cases c; simp add: conc_iter_def afoo_def)+

lemma fold_seq_iter_results:
  "results (fold seq_iter xs s) = results s @ map (\<lambda>i. i ^ 2) xs"
  by (induction xs arbitrary: s) (simp_all add: seq_iter_simps)

lemma fold_seq_iter_completed:
  "completed (fold seq_iter xs s) = completed s + length xs"
  by (induction xs arbitrary: s) (simp_all add: seq_iter_simps)

lemma fold_seq_iter_total: "total (fold seq_iter xs s) = total s"
  by (induction xs arbitrary: s) (simp_all add: seq_iter_simps)

lemma fold_seq_iter_clock: "clock (fold seq_iter xs s) = clock s + length xs * delay"
  by (induction xs arbitrary: s) (simp_all add: seq_iter_simps)

lemma fold_conc_iter_results:
  "results (fold (conc_iter t0) cs s) = results s @ map (\<lambda>c. fst (launch c t0)) cs"
proof (induction cs arbitrary: s)
  case Nil
  show ?case by simp
next
  case (Cons c cs)
  then show ?case by (cases c) (simp add: conc_iter_simps afoo_def)
qed

lemma fold_conc_iter_completed:
  "completed (fold (conc_iter t0) cs s) = completed s + length cs"
  by (induction cs arbitrary: s) (simp_all add: conc_iter_simps)

lemma fold_conc_iter_total: "total (fold (conc_iter t0) cs s) = total s"
  by (induction cs arbitrary: s) (simp_all add: conc_iter_simps)

lemma fold_conc_iter_clock:
  "clock (fold (conc_iter t0) cs s) = (if cs = [] then clock s else max (clock s) (t0 + delay))"
  by (induction cs arbitrary: s) (simp_all add: conc_iter_simps)

lemma history_completed:
  fixes body :: "'a \<Rightarrow> run_state \<Rightarrow> run_state"
  assumes "\<And>a s. completed (body a s) = Suc (completed s)"
  shows "map completed (history body xs s) = [completed s..<Suc (completed s + length xs)]"
proof (induction xs arbitrary: s)
  case Nil
  show ?case by simp
next
  case (Cons a xs)
  have "[completed s..<Suc (completed s + length (a # xs))] =
        completed s # [Suc (completed s)..<Suc (Suc (completed s) + length xs)]"
    by (subst upt_rec) simp
  with Cons [of "body a s"] assms show ?case
    by simp
qed

lemma history_invariant:
  fixes body :: "'a \<Rightarrow> 's \<Rightarrow> 's"
  assumes "P s" and "\<And>a s. P s \<Longrightarrow> P (body a s)"
  shows "\<forall>s' \<in> set (history body xs s). P s'"
  using assms(1)
proof (induction xs arbitrary: s)
  case Nil
  then show ?case by simp
next
  case (Cons a xs)
  from Cons.prems have "P (body a s)" by (rule assms(2))
  from Cons.IH [OF this] Cons.prems show ?case by simp
qed

subsection \<open>Completion order\<close>

text \<open>
  Whatever the schedule, the completion order is a rearrangement of the pending tasks, and
  every rearrangement is the completion order of some schedule.
\<close>

lemma as_completed_Nil: "as_completed sched [] = []"
  by (simp add: as_completed.simps)

lemma as_completed_step:
  "pending \<noteq> [] \<Longrightarrow> as_completed sched pending =
     pending ! (sched 0 mod length pending) #
     as_completed (\<lambda>k. sched (Suc k)) (remove_nth (sched 0 mod length pending) pending)"
  by (subst as_completed.simps) (simp add: Let_def)

lemma mset_remove_nth: "j < length xs \<Longrightarrow> add_mset (xs ! j) (mset (remove_nth j xs)) = mset xs"
proof -
  assume "j < length xs"
  then have "xs = take j xs @ xs ! j # drop (Suc j) xs"
    by (rule id_take_nth_drop)
  then have "mset xs = mset (take j xs @ xs ! j # drop (Suc j) xs)"
    by simp
  then show ?thesis
    by (simp add: remove_nth_def)
qed

lemma mset_as_completed: "mset (as_completed sched xs) = mset xs"
proof (induction sched xs rule: as_completed.induct)
  case (1 sched pending)
  show ?case
  proof (cases "pending = []")
    case True
    then show ?thesis by (simp add: as_completed_Nil)
  next
    case False
    let ?j = "sched 0 mod length pending"
    from False have j: "?j < length pending" by simp
    from 1 [OF False refl]
    have "mset (as_completed (\<lambda>k. sched (Suc k)) (remove_nth ?j pending))
        = mset (remove_nth ?j pending)" .
    with False j show ?thesis
      by (simp add: as_completed_step mset_remove_nth)
  qed
qed

lemma as_completed_complete: "mset ys = mset xs \<Longrightarrow> \<exists>sched. as_completed sched xs = ys"
proof (induction ys arbitrary: xs)
  case Nil
  then show ?case by (simp add: as_completed_Nil)
next
  case (Cons y ys)
  then have "y \<in> set xs"
    by (metis list.set_intros(1) set_mset_mset)
  then obtain j where j: "j < length xs" "xs ! j = y"
    by (auto simp: in_set_conv_nth)
  from j have ne: "xs \<noteq> []" by auto
  from mset_remove_nth [OF j(1)] j(2) Cons.prems
  have "add_mset y (mset ys) = add_mset y (mset (remove_nth j xs))" by simp
  then have "mset ys = mset (remove_nth j xs)" by simp
  from Cons.IH [OF this] obtain sched' where s': "as_completed sched' (remove_nth j xs) = ys" ..
  define sched where "sched = case_nat j sched'"
  have "sched 0 mod length xs = j" "(\<lambda>k. sched (Suc k)) = sched'"
    using j by (simp_all add: sched_def)
  with s' j ne have "as_completed sched xs = y # ys"
    by (simp add: as_completed_step)
  then show ?case by blast
qed

lemma length_as_completed: "length (as_completed sched xs) = length xs"
  by (rule mset_eq_length) (rule mset_as_completed)

lemma as_completed_eq_Nil: "as_completed sched xs = [] \<longleftrightarrow> xs = []"
  using length_as_completed [of sched xs] by (metis length_0_conv)

subsection \<open>Results of the two cells\<close>

lemma sequential_results: "results (sequential n t) = map (\<lambda>i. i ^ 2) (range_py n)"
  by (simp add: sequential_def fold_seq_iter_results tqdm_def)

lemma do1_results:
  "results (do1 sched n t) =
     map (\<lambda>c. fst (launch c t)) (as_completed sched (map Coroutine (range_py n)))"
  by (simp add: do1_def fold_conc_iter_results tqdm_def)

lemma do1_results_mset: "mset (results (do1 sched n t)) = mset (map (\<lambda>i. i ^ 2) (range_py n))"
proof -
  have "mset (results (do1 sched n t)) =
      image_mset (\<lambda>c. fst (launch c t)) (mset (as_completed sched (map Coroutine (range_py n))))"
    by (simp add: do1_results)
  also have "\<dots> = image_mset (\<lambda>c. fst (launch c t)) (mset (map Coroutine (range_py n)))"
    by (simp only: mset_as_completed)
  also have "\<dots> = mset (map (\<lambda>i. i ^ 2) (range_py n))"
    by (simp add: afoo_def multiset.map_comp comp_def)
  finally show ?thesis .
qed

lemma mset_range_py: "mset (range_py n) = mset_set {0..<n}"
proof -
  have "distinct (range_py n)" "set (range_py n) = {0..<n}"
    by (auto simp: range_py_def)
  then show ?thesis
    by (metis mset_set_set)
qed

lemma sequential_history_completed:
  "map completed (sequential_history n t) = [0..<Suc (nat n)]"
proof -
  have "map completed (history seq_iter (range_py n) (tqdm (int (length (range_py n))) t)) =
      [completed (tqdm (int (length (range_py n))) t)..<
        Suc (completed (tqdm (int (length (range_py n))) t) + length (range_py n))]"
    by (rule history_completed) (rule seq_iter_simps)
  then show ?thesis
    by (simp add: sequential_history_def tqdm_def length_range_py)
qed

lemma do1_history_completed:
  "map completed (do1_history sched n t) = [0..<Suc (nat n)]"
proof -
  let ?cs = "as_completed sched (map Coroutine (range_py n))"
  have "map completed (history (conc_iter t) ?cs (tqdm n t)) =
      [completed (tqdm n t)..<Suc (completed (tqdm n t) + length ?cs)]"
    by (rule history_completed) (rule conc_iter_simps)
  then show ?thesis
    by (simp add: do1_history_def tqdm_def length_as_completed length_range_py)
qed

lemma sequential_last: "last (sequential_history n t) = sequential n t"
  by (simp add: sequential_history_def sequential_def history_last)

lemma do1_last: "last (do1_history sched n t) = do1 sched n t"
  by (simp add: do1_history_def do1_def history_last)

lemma sequential_progress:
  "completed (sequential n t) = nat n" "total (sequential n t) = int (nat n)"
  by (simp_all add: sequential_def fold_seq_iter_completed fold_seq_iter_total tqdm_def
      length_range_py)

lemma do1_progress:
  "completed (do1 sched n t) = nat n" "total (do1 sched n t) = n"
  by (simp_all add: do1_def fold_conc_iter_completed fold_conc_iter_total tqdm_def
      length_as_completed length_range_py)

lemma sequential_history_counts:
  "\<forall>s \<in> set (sequential_history n t). completed s = length (results s) \<and> total s = int (nat n)"
  unfolding sequential_history_def
  by (rule history_invariant) (simp_all add: tqdm_def seq_iter_simps length_range_py)

lemma do1_history_counts:
  "\<forall>s \<in> set (do1_history sched n t). completed s = length (results s) \<and> total s = n"
  unfolding do1_history_def Let_def
proof (rule history_invariant)
  show "completed (tqdm n t) = length (results (tqdm n t)) \<and> total (tqdm n t) = n"
    by (simp add: tqdm_def)
next
  fix a and s :: run_state
  assume "completed s = length (results s) \<and> total s = n"
  then show "completed (conc_iter t a s) = length (results (conc_iter t a s)) \<and>
      total (conc_iter t a s) = n"
    by (cases a) (simp add: conc_iter_simps)
qed

subsection \<open>Nominal delays\<close>

text \<open>
  On the logical clock the sequential cell adds one delay per input, and the concurrent
  cell one delay in all however many tasks there are. This is about the nominal delays
  only, not about measured time.
\<close>

lemma nominal_delays:
  "clock (sequential n t) = t + nat n * delay"
  "clock (do1 sched n t) = (if n \<le> 0 then t else t + delay)"
  by (simp_all add: sequential_def do1_def fold_seq_iter_clock fold_conc_iter_clock tqdm_def
      length_range_py as_completed_eq_Nil range_py_eq_Nil)

lemma nominal_delays_N:
  "clock (sequential N 0) = 10000" "clock (do1 sched N 0) = 200"
  by (simp_all add: nominal_delays N_def delay_def)

subsection \<open>Squares of integers\<close>

lemma abs_le_square: "\<bar>a\<bar> \<le> a * (a::int)"
proof (cases "a = 0")
  case True
  then show ?thesis by simp
next
  case False
  then have "1 \<le> \<bar>a\<bar>" by simp
  then have "\<bar>a\<bar> * 1 \<le> \<bar>a\<bar> * \<bar>a\<bar>"
    by (intro mult_left_mono) simp_all
  then show ?thesis by simp
qed

section \<open>Claims\<close>

text \<open>
  C1. For every \<open>N \<ge> 0\<close> the sequential cell's result is a list of length \<open>N\<close> in input
  order: its element at every index \<open>i\<close> with \<open>0 \<le> i < N\<close> is \<open>i * i\<close>.
\<close>

theorem sequential_preserves_order:
  assumes "0 \<le> n"
  shows "int (length (results (sequential n t))) = n \<and>
         (\<forall>i. 0 \<le> i \<and> i < n \<longrightarrow> results (sequential n t) ! nat i = i * i)"
proof (intro conjI allI impI)
  show "int (length (results (sequential n t))) = n"
    using assms by (simp add: sequential_results length_range_py)
next
  fix i :: int
  assume i: "0 \<le> i \<and> i < n"
  then have "nat i < nat n" by simp
  then have "results (sequential n t) ! nat i = (int (nat i)) ^ 2"
    by (simp add: sequential_results length_range_py nth_range_py)
  with i show "results (sequential n t) ! nat i = i * i"
    by (simp add: power2_eq_square)
qed

theorem sequential_preserves_order_witness:
  "(0::int) \<le> 3 \<and> int (length (results (sequential 3 0))) = 3 \<and>
   results (sequential 3 0) ! nat 2 = 2 * 2 \<and> results (sequential 3 0) = [0, 1, 4]"
proof -
  have h: "(0::int) \<le> 3" by simp
  have e: "results (sequential 3 0) = [0, 1, 4]" by code_simp
  from sequential_preserves_order [OF h, of 0] e h show ?thesis by simp
qed

text \<open>
  C2. For every \<open>N \<ge> 0\<close> and every schedule, the concurrent cell's results are, as a
  multiset, the squares of \<open>0, ..., N - 1\<close>; the iteration over the next completed task
  yields every input exactly once, \<open>N\<close> tasks in all.
\<close>

theorem do1_result_multiset:
  assumes "0 \<le> n"
  shows "mset (results (do1 sched n t)) = {#i * i. i \<in># mset_set {0..<n}#} \<and>
         image_mset arg (mset (as_completed sched (map Coroutine (range_py n)))) = mset_set {0..<n} \<and>
         int (length (as_completed sched (map Coroutine (range_py n)))) = n"
proof (intro conjI)
  show "mset (results (do1 sched n t)) = {#i * i. i \<in># mset_set {0..<n}#}"
    by (simp add: do1_results_mset mset_range_py power2_eq_square)
next
  show "image_mset arg (mset (as_completed sched (map Coroutine (range_py n)))) = mset_set {0..<n}"
    by (simp add: mset_as_completed mset_range_py multiset.map_comp comp_def)
next
  have "length (as_completed sched (map Coroutine (range_py n))) = length (map Coroutine (range_py n))"
    by (rule mset_eq_length) (rule mset_as_completed)
  with assms show "int (length (as_completed sched (map Coroutine (range_py n)))) = n"
    by (simp add: length_range_py)
qed

theorem do1_result_multiset_witness:
  "(0::int) \<le> 3 \<and> results (do1 (\<lambda>k. 1) 3 0) = [1, 4, 0] \<and>
   mset [1, 4, 0 :: int] = {#i * i. i \<in># mset_set {0..<3}#}"
proof -
  have h: "(0::int) \<le> 3" by simp
  have e: "results (do1 (\<lambda>k. 1) 3 0) = [1, 4, 0]" by code_simp
  from do1_result_multiset [OF h, of "\<lambda>k. 1" 0] e h show ?thesis by simp
qed

text \<open>
  C4. The two workload functions compute the same value for every integer \<open>a\<close>, its
  square, after the same delay; for \<open>foo\<close> the delay blocks the caller, for \<open>afoo\<close> it
  is the wake-up time of the suspended coroutine.
\<close>

theorem workloads_agree:
  "fst (foo a t) = a ^ 2 \<and> fst (afoo a t') = a ^ 2 \<and>
   fst (launch (Coroutine a) t') = fst (foo a t) \<and>
   snd (foo a t) = t + delay \<and> snd (afoo a t') = t' + delay"
  by (simp add: foo_def afoo_def)

text \<open>
  C5. At \<open>N = 0\<close> both cells end with an empty result list and with the progress bar at
  0 completed units out of 0, and no iteration has run: the history is the initial state
  alone and the clock has not moved.
\<close>

theorem empty_run:
  "results (sequential 0 t) = [] \<and> results (do1 sched 0 t) = [] \<and>
   completed (sequential 0 t) = 0 \<and> total (sequential 0 t) = 0 \<and>
   completed (do1 sched 0 t) = 0 \<and> total (do1 sched 0 t) = 0 \<and>
   sequential_history 0 t = [tqdm 0 t] \<and> do1_history sched 0 t = [tqdm 0 t] \<and>
   clock (sequential 0 t) = t \<and> clock (do1 sched 0 t) = t"
  by (simp add: sequential_def do1_def sequential_history_def do1_history_def
      range_py_nonpos as_completed_Nil tqdm_def)

text \<open>
  C6. For both cells and every \<open>N \<ge> 0\<close>, the progress counter takes the values
  \<open>0, 1, ..., N\<close> in this order, one step per completed unit; in every state it is the
  number of results so far, out of the total \<open>N\<close>; and the run ends at \<open>N\<close> out of \<open>N\<close>.
\<close>

theorem progress_counter:
  assumes "0 \<le> n"
  shows "map completed (sequential_history n t) = [0..<Suc (nat n)] \<and>
         map completed (do1_history sched n t) = [0..<Suc (nat n)] \<and>
         (\<forall>s \<in> set (sequential_history n t). completed s = length (results s) \<and> total s = n) \<and>
         (\<forall>s \<in> set (do1_history sched n t). completed s = length (results s) \<and> total s = n) \<and>
         last (sequential_history n t) = sequential n t \<and>
         last (do1_history sched n t) = do1 sched n t \<and>
         int (completed (sequential n t)) = n \<and> total (sequential n t) = n \<and>
         int (completed (do1 sched n t)) = n \<and> total (do1 sched n t) = n"
  using assms sequential_history_counts [of n t]
  by (simp add: sequential_history_completed do1_history_completed do1_history_counts
      sequential_last do1_last sequential_progress do1_progress)

theorem progress_counter_witness:
  "(0::int) \<le> 3 \<and>
   map completed (sequential_history 3 0) = [0, 1, 2, 3] \<and>
   map completed (do1_history (\<lambda>k. 1) 3 0) = [0, 1, 2, 3] \<and>
   completed (sequential 3 0) = 3 \<and> total (sequential 3 0) = 3 \<and>
   completed (do1 (\<lambda>k. 1) 3 0) = 3 \<and> total (do1 (\<lambda>k. 1) 3 0) = 3"
proof -
  have h: "(0::int) \<le> 3" by simp
  have u: "[0..<Suc (nat 3)] = [0, 1, 2, 3]" by code_simp
  from progress_counter [OF h, of 0 "\<lambda>k. 1"] u show ?thesis by simp
qed

text \<open>
  C7. Two runs of the same cell with the same \<open>N\<close> give the same multiset of results,
  whatever the starting times and, for the concurrent cell, whatever the two schedules.
\<close>

theorem rerun_same_multiset:
  "mset (results (sequential n t1)) = mset (results (sequential n t2)) \<and>
   mset (results (do1 s1 n t1)) = mset (results (do1 s2 n t2))"
  by (simp add: sequential_results do1_results_mset)

text \<open>
  C8. The configured count is \<open>N = 50\<close>, and the input range of a count \<open>n\<close> is the
  strictly ascending list of the integers from 0 inclusive to \<open>n\<close> exclusive; both cells
  work on that range at \<open>N\<close>.
\<close>

theorem input_range:
  "N = 50 \<and> range_py N = map int [0..<50] \<and>
   set (range_py n) = {0..<n} \<and> sorted_wrt (<) (range_py n) \<and>
   x_sequential t = map (\<lambda>i. i ^ 2) (range_py 50) \<and>
   mset (x_concurrent sched t) = mset (map (\<lambda>i. i ^ 2) (range_py 50)) \<and>
   image_mset arg (mset (as_completed sched (map Coroutine (range_py N)))) = mset (range_py 50)"
proof -
  have "set (range_py n) = {0..<n}" "sorted_wrt (<) (range_py n)"
    by (auto simp: range_py_def)
  moreover have "range_py N = map int [0..<50]"
    by (simp add: range_py_eq_map N_def)
  ultimately show ?thesis
    by (simp add: N_def x_sequential_def x_concurrent_def sequential_results
        do1_results_mset mset_as_completed multiset.map_comp comp_def)
qed

text \<open>
  C9. For every \<open>N < 0\<close> the input range is empty and both cells end with an empty
  result list without running any unit: the history is the initial state alone.
\<close>

theorem negative_count_empty:
  assumes "n < 0"
  shows "range_py n = [] \<and> results (sequential n t) = [] \<and> results (do1 sched n t) = [] \<and>
         sequential_history n t = [tqdm 0 t] \<and> do1_history sched n t = [tqdm n t] \<and>
         completed (sequential n t) = 0 \<and> completed (do1 sched n t) = 0"
  using assms
  by (simp add: sequential_def do1_def sequential_history_def do1_history_def
      range_py_nonpos as_completed_Nil tqdm_def)

theorem negative_count_empty_witness:
  "(-1::int) < 0 \<and> range_py (-1) = [] \<and> results (sequential (-1) 0) = [] \<and>
   results (do1 (\<lambda>k. 0) (-1) 0) = []"
proof -
  have h: "(-1::int) < 0" by simp
  from negative_count_empty [OF h, of 0 "\<lambda>k. 0"] h show ?thesis by simp
qed

text \<open>
  C10. Both workload functions square exactly in the unbounded integers: the value is
  \<open>a * a\<close> for every integer \<open>a\<close>, it is never below \<open>\<bar>a\<bar>\<close>, and whenever \<open>a * a\<close> does not
  fit in \<open>w\<close> bits the value is not the one wrapped to \<open>w\<close> bits.
\<close>

theorem square_exact:
  "fst (foo a t) = a * a \<and> fst (afoo a t) = a * a \<and>
   \<bar>a\<bar> \<le> fst (foo a t) \<and> \<bar>a\<bar> \<le> fst (afoo a t) \<and>
   (2 ^ w \<le> a * a \<longrightarrow> fst (foo a t) \<noteq> (a * a) mod 2 ^ w \<and> fst (afoo a t) \<noteq> (a * a) mod 2 ^ w)"
proof -
  have "\<bar>a\<bar> \<le> a * a"
    by (rule abs_le_square)
  moreover have "a * a \<noteq> (a * a) mod 2 ^ w" if "2 ^ w \<le> a * a"
  proof -
    have "(a * a) mod 2 ^ w < 2 ^ w"
      by simp
    with that show ?thesis
      by linarith
  qed
  ultimately show ?thesis
    by (simp add: foo_def afoo_def power2_eq_square)
qed

theorem square_exact_witness:
  "(2::int) ^ 64 \<le> 4294967296 * 4294967296 \<and>
   fst (foo 4294967296 0) = 18446744073709551616 \<and>
   fst (foo 4294967296 0) \<noteq> (4294967296 * 4294967296) mod 2 ^ 64 \<and>
   fst (afoo 4294967296 0) \<noteq> (4294967296 * 4294967296) mod 2 ^ 64"
  using square_exact [of 4294967296 0 64] by simp

end
